theory Spec2Isabelle
  imports Complex_Main
begin

section \<open>Strings, values and errors\<close>

text \<open>
  The converters work on JavaScript strings (\<open>src/chain_prompt.js\<close>, \<open>src/unnamed/part_001\<close>)
  and on a Python \<open>str\<close> (\<open>src/unnamed/part_000\<close>). A string is modelled as the list of its
  Unicode code points. Every character class of the sources that is applied per UTF-16 code
  unit (the regular expressions without the \<open>u\<close> flag, \<open>trim\<close>, \<open>split(' ')\<close>) only
  mentions characters of the Basic Multilingual Plane that are no surrogates, or is the
  complement of such a class, so it treats the two halves of a surrogate pair exactly as it
  treats the code point they encode.
\<close>

type_synonym cp = nat
type_synonym jstring = "cp list"

definition js :: "string \<Rightarrow> jstring" where
  \<comment> \<open>an ASCII literal of the source\<close>
  "js s = map of_char s"

text \<open>The values a JavaScript caller can pass, and what \<open>typeof\<close> says about them.\<close>

datatype jsval =
    JUndefined
  | JNull
  | JBoolean bool
  | JNumber real
  | JBigInt int
  | JString jstring
  | JSymbol nat
  | JFunction nat
  | JObject nat

fun typeof :: "jsval \<Rightarrow> string" where
  "typeof JUndefined = ''undefined''"
| "typeof JNull = ''object''"
| "typeof (JBoolean b) = ''boolean''"
| "typeof (JNumber n) = ''number''"
| "typeof (JBigInt n) = ''bigint''"
| "typeof (JString s) = ''string''"
| "typeof (JSymbol a) = ''symbol''"
| "typeof (JFunction a) = ''function''"
| "typeof (JObject a) = ''object''"

datatype error = TypeError string

section \<open>Character classes\<close>

definition upper :: "cp \<Rightarrow> bool" where
  \<comment> \<open>\<open>[A-Z]\<close>\<close>
  "upper c = (65 \<le> c \<and> c \<le> 90)"

definition lower :: "cp \<Rightarrow> bool" where
  \<comment> \<open>\<open>[a-z]\<close>\<close>
  "lower c = (97 \<le> c \<and> c \<le> 122)"

definition digit :: "cp \<Rightarrow> bool" where
  \<comment> \<open>\<open>[0-9]\<close>\<close>
  "digit c = (48 \<le> c \<and> c \<le> 57)"

definition letter :: "cp \<Rightarrow> bool" where
  \<comment> \<open>\<open>[a-zA-Z]\<close>\<close>
  "letter c = (lower c \<or> upper c)"

definition lower_digit :: "cp \<Rightarrow> bool" where
  \<comment> \<open>\<open>[a-z0-9]\<close>\<close>
  "lower_digit c = (lower c \<or> digit c)"

definition alnum :: "cp \<Rightarrow> bool" where
  \<comment> \<open>\<open>[a-zA-Z0-9]\<close>\<close>
  "alnum c = (letter c \<or> digit c)"

definition space :: cp where
  "space = 32"

definition hyphen :: cp where
  "hyphen = 45"

definition dot :: cp where
  "dot = 46"

definition underscore :: cp where
  "underscore = 95"

definition js_space :: "cp \<Rightarrow> bool" where
  \<comment> \<open>ECMAScript \<open>\s\<close>, which is also what \<open>trim\<close> removes: WhiteSpace and LineTerminator\<close>
  "js_space c = (c = 9 \<or> c = 10 \<or> c = 11 \<or> c = 12 \<or> c = 13 \<or> c = 32 \<or> c = 160 \<or>
     c = 0x1680 \<or> (0x2000 \<le> c \<and> c \<le> 0x200A) \<or> c = 0x2028 \<or> c = 0x2029 \<or>
     c = 0x202F \<or> c = 0x205F \<or> c = 0x3000 \<or> c = 0xFEFF)"

definition py_space :: "cp \<Rightarrow> bool" where
  \<comment> \<open>Python \<open>\s\<close> in a \<open>str\<close> pattern: the characters for which \<open>str.isspace\<close> holds\<close>
  "py_space c = ((9 \<le> c \<and> c \<le> 13) \<or> (28 \<le> c \<and> c \<le> 32) \<or> c = 0x85 \<or> c = 160 \<or>
     c = 0x1680 \<or> (0x2000 \<le> c \<and> c \<le> 0x200A) \<or> c = 0x2028 \<or> c = 0x2029 \<or>
     c = 0x202F \<or> c = 0x205F \<or> c = 0x3000)"

definition kebab_sep :: "cp \<Rightarrow> bool" where
  \<comment> \<open>\<open>[_\-\s]\<close> of \<open>toKebabCase\<close>\<close>
  "kebab_sep c = (c = underscore \<or> c = hyphen \<or> js_space c)"

definition camel_sep :: "cp \<Rightarrow> bool" where
  \<comment> \<open>\<open>[\s\-_\.]\<close> of \<open>camelCase\<close> and \<open>dotCase\<close>\<close>
  "camel_sep c = (js_space c \<or> c = hyphen \<or> c = underscore \<or> c = dot)"

definition alnum_space :: "cp \<Rightarrow> bool" where
  \<comment> \<open>\<open>[a-zA-Z0-9 ]\<close>\<close>
  "alnum_space c = (alnum c \<or> c = space)"

definition snake_sep :: "cp \<Rightarrow> bool" where
  \<comment> \<open>\<open>[\s\-]\<close> of \<open>to_snake_case\<close>\<close>
  "snake_sep c = (py_space c \<or> c = hyphen)"

section \<open>The Unicode character database\<close>

text \<open>
  \<open>\p{L}\<close>, \<open>\p{N}\<close>, \<open>toLowerCase\<close> and \<open>toUpperCase\<close> read the Unicode character database
  of the runtime, which is no part of the repository. Its ASCII rows are written out below
  (the letters are \<open>A-Z\<close> and \<open>a-z\<close>, the numbers are \<open>0-9\<close>, case conversion shifts the
  letters by 32 and changes nothing else); the rows of all other code points are a parameter.
  A case mapping of a code point outside ASCII may give several code points and may depend
  on the text before and after it (the final sigma), so the parameter sees both.
\<close>

record ucd =
  uc_letter :: "cp \<Rightarrow> bool"
  uc_number :: "cp \<Rightarrow> bool"
  uc_lower :: "jstring \<Rightarrow> cp \<Rightarrow> jstring \<Rightarrow> jstring"
  uc_upper :: "jstring \<Rightarrow> cp \<Rightarrow> jstring \<Rightarrow> jstring"

definition is_L :: "ucd \<Rightarrow> cp \<Rightarrow> bool" where
  \<comment> \<open>\<open>\p{L}\<close>\<close>
  "is_L u c = (if c < 128 then letter c else uc_letter u c)"

definition is_N :: "ucd \<Rightarrow> cp \<Rightarrow> bool" where
  \<comment> \<open>\<open>\p{N}\<close>\<close>
  "is_N u c = (if c < 128 then digit c else uc_number u c)"

definition ascii_lower :: "cp \<Rightarrow> cp" where
  "ascii_lower c = (if upper c then c + 32 else c)"

definition ascii_upper :: "cp \<Rightarrow> cp" where
  "ascii_upper c = (if lower c then c - 32 else c)"

fun case_map :: "(jstring \<Rightarrow> cp \<Rightarrow> jstring \<Rightarrow> jstring) \<Rightarrow> (cp \<Rightarrow> cp) \<Rightarrow> jstring \<Rightarrow> jstring \<Rightarrow> jstring" where
  "case_map f g seen [] = []"
| "case_map f g seen (c # rest) =
     (if c < 128 then [g c] else f seen c rest) @ case_map f g (seen @ [c]) rest"

definition toLowerCase :: "ucd \<Rightarrow> jstring \<Rightarrow> jstring" where
  "toLowerCase u s = case_map (uc_lower u) ascii_lower [] s"

definition toUpperCase :: "ucd \<Rightarrow> jstring \<Rightarrow> jstring" where
  "toUpperCase u s = case_map (uc_upper u) ascii_upper [] s"

text \<open>
  The rows of the basic Russian alphabet, U+0410 to U+044F: all are letters, the capitals
  U+0410 to U+042F have their small letter 32 code points higher. Nothing else is classified.
\<close>

definition ucd_russian :: ucd where
  "ucd_russian = \<lparr>
     uc_letter = (\<lambda>c. 0x410 \<le> c \<and> c \<le> 0x44F),
     uc_number = (\<lambda>c. False),
     uc_lower = (\<lambda>seen c rest. if 0x410 \<le> c \<and> c \<le> 0x42F then [c + 32] else [c]),
     uc_upper = (\<lambda>seen c rest. if 0x430 \<le> c \<and> c \<le> 0x44F then [c - 32] else [c]) \<rparr>"

section \<open>String operations of the runtimes\<close>

definition trim :: "jstring \<Rightarrow> jstring" where
  \<comment> \<open>\<open>String.prototype.trim\<close>\<close>
  "trim s = rev (dropWhile js_space (rev (dropWhile js_space s)))"

definition strip :: "cp \<Rightarrow> jstring \<Rightarrow> jstring" where
  \<comment> \<open>Python \<open>s.strip(ch)\<close> for a single character\<close>
  "strip ch s = rev (dropWhile (\<lambda>c. c = ch) (rev (dropWhile (\<lambda>c. c = ch) s)))"

text \<open>
  \<open>s.replace(/[...]+/g, r)\<close> and \<open>re.sub(r'[...]+', r, s)\<close>: every maximal run of characters of
  the class is replaced by \<open>r\<close>; with the empty \<open>r\<close> the run is deleted.
\<close>

function replace_runs :: "(cp \<Rightarrow> bool) \<Rightarrow> jstring \<Rightarrow> jstring \<Rightarrow> jstring" where
  "replace_runs p r [] = []"
| "replace_runs p r (c # cs) =
     (if p c then r @ replace_runs p r (dropWhile p cs) else c # replace_runs p r cs)"
  by pat_completeness auto
termination
  by (relation "measure (\<lambda>(p, r, s). length s)") (auto simp: length_dropWhile_le less_Suc_eq_le)

text \<open>
  \<open>s.replace(/([P])([Q])/g, '$1 $2')\<close> for two one-character classes: the scan goes from left
  to right, a match takes both characters, and the scan goes on behind the second one.
\<close>

fun split_pairs :: "(cp \<Rightarrow> bool) \<Rightarrow> (cp \<Rightarrow> bool) \<Rightarrow> jstring \<Rightarrow> jstring" where
  "split_pairs p q (a # b # cs) =
     (if p a \<and> q b then a # space # b # split_pairs p q cs else a # split_pairs p q (b # cs))"
| "split_pairs p q cs = cs"

text \<open>
  \<open>s.replace(/([A-Z]+)([A-Z][a-z0-9]+)/g, '$1 $2')\<close>. At a position, \<open>[A-Z]+\<close> first takes the
  whole run of capitals and then gives them back one at a time. After giving back one, the
  second group starts at the last capital of the run and needs a character of \<open>[a-z0-9]\<close>
  right behind the run; after giving back more, the character behind the second group's
  capital is a capital again and the match fails. So there is a match at the position exactly
  when the run has at least two capitals and a character of \<open>[a-z0-9]\<close> follows it; the first
  group is the run without its last capital, the second group is that capital and the whole
  run of \<open>[a-z0-9]\<close> behind it. The scan goes on behind the match.
\<close>

function split_acronym :: "jstring \<Rightarrow> jstring" where
  "split_acronym [] = []"
| "split_acronym (c # cs) =
     (let run = takeWhile upper (c # cs);
          rest = dropWhile upper (c # cs);
          tail = takeWhile lower_digit rest
      in if 2 \<le> length run \<and> tail \<noteq> []
         then butlast run @ space # last run # tail @ split_acronym (dropWhile lower_digit rest)
         else c # split_acronym cs)"
  by pat_completeness auto
termination
proof (relation "measure length")
  fix c :: cp and cs x xa and xb :: jstring
  assume run: "x = takeWhile upper (c # cs)" and rest: "xa = dropWhile upper (c # cs)"
    and "2 \<le> length x \<and> xb \<noteq> []"
  then have "upper c"
    by (auto split: if_splits)
  then have "xa = dropWhile upper cs"
    using rest by simp
  moreover have "length (dropWhile lower_digit (dropWhile upper cs)) \<le> length (dropWhile upper cs)"
    by (rule length_dropWhile_le)
  moreover have "length (dropWhile upper cs) \<le> length cs"
    by (rule length_dropWhile_le)
  ultimately show "(dropWhile lower_digit xa, c # cs) \<in> measure length"
    by simp
qed simp_all

text \<open>
  The same pattern as a backtracking engine matches it at the start of \<open>s\<close>.
  \<open>capital_word\<close> is the second group, \<open>[A-Z][a-z0-9]+\<close>: a capital and the longest run of
  \<open>[a-z0-9]\<close> behind it, which must not be empty. \<open>acronym_match\<close> lets the first group,
  \<open>[A-Z]+\<close>, take \<open>k\<close> capitals, the whole run first and then one capital fewer at a time,
  and stops at the first \<open>k\<close> behind which the second group matches; it gives the two groups.
  \<open>split_acronym\<close> above is shown below to replace exactly these matches.
\<close>

definition capital_word :: "jstring \<Rightarrow> jstring option" where
  "capital_word s =
     (case s of
        [] \<Rightarrow> None
      | c # cs \<Rightarrow>
          if upper c \<and> takeWhile lower_digit cs \<noteq> [] then Some (c # takeWhile lower_digit cs)
          else None)"

definition acronym_match :: "jstring \<Rightarrow> (jstring \<times> jstring) option" where
  "acronym_match s =
     (case find (\<lambda>k. capital_word (drop k s) \<noteq> None)
             (rev [1..<Suc (length (takeWhile upper s))]) of
        None \<Rightarrow> None
      | Some k \<Rightarrow> map_option (Pair (take k s)) (capital_word (drop k s)))"

text \<open>\<open>s.split(/[...]+/)\<close>: the pieces between the maximal runs, the empty ones included.\<close>

function split_runs :: "(cp \<Rightarrow> bool) \<Rightarrow> jstring \<Rightarrow> jstring list" where
  "split_runs p [] = [[]]"
| "split_runs p (c # cs) =
     (if p c then [] # split_runs p (dropWhile p cs)
      else (case split_runs p cs of [] \<Rightarrow> [[c]] | w # ws \<Rightarrow> (c # w) # ws))"
  by pat_completeness auto
termination
  by (relation "measure (\<lambda>(p, s). length s)") (auto simp: length_dropWhile_le less_Suc_eq_le)

text \<open>\<open>s.split(' ')\<close>: the pieces between the occurrences of one character.\<close>

fun split_char :: "cp \<Rightarrow> jstring \<Rightarrow> jstring list" where
  "split_char sep [] = [[]]"
| "split_char sep (c # cs) =
     (if c = sep then [] # split_char sep cs
      else (case split_char sep cs of [] \<Rightarrow> [[c]] | w # ws \<Rightarrow> (c # w) # ws))"

fun join :: "jstring \<Rightarrow> jstring list \<Rightarrow> jstring" where
  "join sep [] = []"
| "join sep [w] = w"
| "join sep (w # ws) = w @ sep @ join sep ws"

definition charAt0 :: "jstring \<Rightarrow> jstring" where
  \<comment> \<open>\<open>word.charAt(0)\<close>, the empty string when the word is empty\<close>
  "charAt0 word = take 1 word"

definition slice1 :: "jstring \<Rightarrow> jstring" where
  \<comment> \<open>\<open>word.slice(1)\<close>\<close>
  "slice1 word = drop 1 word"

text \<open>
  \<open>re.sub(r'([A-Z]+)', r'_\1', text)\<close>: an underscore goes in front of every maximal run of
  capitals.
\<close>

function prefix_runs :: "jstring \<Rightarrow> jstring" where
  "prefix_runs [] = []"
| "prefix_runs (c # cs) =
     (if upper c then underscore # c # takeWhile upper cs @ prefix_runs (dropWhile upper cs)
      else c # prefix_runs cs)"
  by pat_completeness auto
termination
  by (relation "measure length") (auto simp: length_dropWhile_le less_Suc_eq_le)

section \<open>The converters\<close>

text \<open>\<open>toKebabCase\<close> of \<open>src/chain_prompt.js\<close>.\<close>

fun toKebabCase :: "ucd \<Rightarrow> jsval \<Rightarrow> error + jstring" where
  "toKebabCase u (JString input) =
     (if trim input = [] then Inr []
      else
        let str = split_pairs digit letter
                   (split_pairs letter digit
                     (split_acronym
                       (split_pairs lower_digit upper
                         (replace_runs kebab_sep [space] input))));
            str = replace_runs (\<lambda>c. \<not> (is_L u c \<or> is_N u c \<or> js_space c)) [] str
        in Inr (toLowerCase u (join [hyphen] (filter (\<lambda>w. w \<noteq> []) (split_runs js_space str)))))"
| "toKebabCase u input = Inl (TypeError ''Input must be a string'')"

text \<open>
  \<open>camelCase\<close> and \<open>dotCase\<close> of \<open>src/unnamed/part_001\<close>. Both compute their variable
  \<open>cleaned\<close> by the same three calls, written once here.
\<close>

definition cleaned_of :: "jstring \<Rightarrow> jstring" where
  "cleaned_of input =
     trim (replace_runs (\<lambda>c. \<not> alnum_space c) [] (replace_runs camel_sep [space] input))"

fun camelCase :: "ucd \<Rightarrow> jsval \<Rightarrow> error + jstring" where
  "camelCase u (JString input) =
     (if trim input = [] then Inr []
      else
        let cleaned = cleaned_of input
        in if cleaned = [] then Inr []
           else
             let words = split_char space cleaned
             in Inr (join []
                  (map (\<lambda>(idx, word).
                          if idx = 0 then toLowerCase u word
                          else toUpperCase u (charAt0 word) @ toLowerCase u (slice1 word))
                       (enumerate 0 words))))"
| "camelCase u input = Inl (TypeError ''Input must be a string'')"

fun dotCase :: "ucd \<Rightarrow> jsval \<Rightarrow> error + jstring" where
  "dotCase u (JString input) =
     (if trim input = [] then Inr []
      else
        let cleaned = cleaned_of input
        in if cleaned = [] then Inr []
           else
             let words = split_char space cleaned
             in Inr (join [dot] (map (\<lambda>word. toLowerCase u word) words)))"
| "dotCase u input = Inl (TypeError ''Input must be a string'')"

text \<open>\<open>to_snake_case\<close> of \<open>src/unnamed/part_000\<close>; \<open>str.lower\<close> is the lower-case mapping again.\<close>

definition to_snake_case :: "ucd \<Rightarrow> jstring \<Rightarrow> jstring" where
  "to_snake_case u text =
     (let text = prefix_runs text;
          text = replace_runs snake_sep [underscore] text
      in strip underscore (toLowerCase u text))"

section \<open>The literals of the embedded tests\<close>

text \<open>
  Line 53 of \<open>src/chain_prompt.js\<close>: the input U+041F U+0440 U+0438 U+0432 U+0435 U+0442 U+041C
  U+0438 U+0440 and the result the test expects, in small letters with a hyphen in front of
  U+043C.
\<close>

definition privet_mir :: jstring where
  "privet_mir = [0x41F, 0x440, 0x438, 0x432, 0x435, 0x442, 0x41C, 0x438, 0x440]"

definition privet_mir_expected :: jstring where
  "privet_mir_expected = [0x43F, 0x440, 0x438, 0x432, 0x435, 0x442, hyphen, 0x43C, 0x438, 0x440]"

definition russian_rows :: "ucd \<Rightarrow> bool" where
  \<comment> \<open>the database has the rows of the Russian alphabet: letters, capitals 32 below\<close>
  "russian_rows u = (\<forall>c. 0x410 \<le> c \<and> c \<le> 0x44F \<longrightarrow>
     uc_letter u c \<and> (\<forall>seen rest. uc_lower u seen c rest = [if c \<le> 0x42F then c + 32 else c]))"

text \<open>The two Russian words of line 53 with a space between them.\<close>

definition privet_space_mir :: jstring where
  "privet_space_mir = [0x41F, 0x440, 0x438, 0x432, 0x435, 0x442, space, 0x41C, 0x438, 0x440]"

section \<open>Boundaries and words\<close>

text \<open>
  \<open>adjacent p q s\<close>: somewhere in \<open>s\<close> a character of the class \<open>p\<close> stands right in front
  of one of the class \<open>q\<close>. A kebab word is what \<open>toKebabCase\<close> puts between two hyphens
  when the input is made of ASCII letters, digits and separators: a non-empty run of small
  letters, or a non-empty run of digits.
\<close>

fun adjacent :: "(cp \<Rightarrow> bool) \<Rightarrow> (cp \<Rightarrow> bool) \<Rightarrow> jstring \<Rightarrow> bool" where
  "adjacent p q (a # b # cs) = (p a \<and> q b \<or> adjacent p q (b # cs))"
| "adjacent p q cs = False"

definition kebab_word :: "jstring \<Rightarrow> bool" where
  "kebab_word w = (w \<noteq> [] \<and> (list_all lower w \<or> list_all digit w))"

section \<open>Evaluation\<close>

lemmas class_defs =
  upper_def lower_def digit_def letter_def lower_digit_def alnum_def space_def hyphen_def
  dot_def underscore_def js_space_def py_space_def kebab_sep_def camel_sep_def
  alnum_space_def snake_sep_def

lemmas eval_defs =
  js_def trim_def strip_def cleaned_of_def Let_def is_L_def is_N_def toLowerCase_def
  toUpperCase_def ascii_lower_def ascii_upper_def charAt0_def slice1_def

lemma russian_rows_ucd_russian: "russian_rows ucd_russian"
  by (simp add: russian_rows_def ucd_russian_def)

section \<open>Runs, pieces and joins\<close>

lemma filter_dropWhile_not: "filter (\<lambda>c. \<not> p c) (dropWhile p s) = filter (\<lambda>c. \<not> p c) s"
  by (induction s) simp_all

lemma replace_runs_delete: "replace_runs p [] s = filter (\<lambda>c. \<not> p c) s"
  by (induction p "[] :: jstring" s rule: replace_runs.induct) (simp_all add: filter_dropWhile_not)

lemma replace_runs_none: "\<forall>c\<in>set s. \<not> p c \<Longrightarrow> replace_runs p r s = s"
  by (induction s) simp_all

lemma dropWhile_all: "\<forall>c\<in>set s. p c \<Longrightarrow> dropWhile p s = []"
  by simp

lemma replace_runs_all: "s \<noteq> [] \<Longrightarrow> \<forall>c\<in>set s. p c \<Longrightarrow> replace_runs p r s = r"
  by (cases s) (simp_all add: dropWhile_all)

lemma replace_runs_append_left:
  "\<forall>c\<in>set w. \<not> p c \<Longrightarrow> replace_runs p r (w @ s) = w @ replace_runs p r s"
  by (induction w) simp_all

lemma case_map_ascii: "\<forall>c\<in>set s. c < 128 \<Longrightarrow> case_map f g seen s = map g s"
  by (induction s arbitrary: seen) simp_all

lemma all_dropWhile_iff: "(\<forall>c\<in>set (dropWhile p s). p c) \<longleftrightarrow> (\<forall>c\<in>set s. p c)"
  by (induction s) simp_all

lemma trim_Nil_iff: "trim s = [] \<longleftrightarrow> (\<forall>c\<in>set s. js_space c)"
  by (simp add: trim_def all_dropWhile_iff)

lemma dropWhile_hd: "xs \<noteq> [] \<Longrightarrow> \<not> p (hd xs) \<Longrightarrow> dropWhile p xs = xs"
  by (cases xs) simp_all

lemma trim_id:
  assumes "s \<noteq> []" "\<not> js_space (hd s)" "\<not> js_space (last s)"
  shows "trim s = s"
proof -
  have no_lead: "dropWhile js_space s = s"
    using assms by (simp add: dropWhile_hd)
  have "hd (rev s) = last s" "rev s \<noteq> []"
    using assms by (simp_all add: hd_rev)
  then have no_trail: "dropWhile js_space (rev s) = rev s"
    using assms by (simp only: dropWhile_hd not_False_eq_True)
  show ?thesis
    by (simp add: trim_def no_lead no_trail)
qed

lemma split_pairs_none_fst: "\<forall>c\<in>set s. \<not> p c \<Longrightarrow> split_pairs p q s = s"
  by (induction p q s rule: split_pairs.induct) simp_all

lemma split_pairs_none_snd: "\<forall>c\<in>set s. \<not> q c \<Longrightarrow> split_pairs p q s = s"
  by (induction p q s rule: split_pairs.induct) simp_all

lemma split_acronym_none: "\<forall>c\<in>set s. \<not> upper c \<Longrightarrow> split_acronym s = s"
  by (induction s) (simp_all add: Let_def)

lemma split_runs_none: "\<forall>c\<in>set s. \<not> p c \<Longrightarrow> split_runs p s = [s]"
  by (induction s) simp_all

lemma prefix_runs_none: "\<forall>c\<in>set s. \<not> upper c \<Longrightarrow> prefix_runs s = s"
  by (induction s) simp_all

lemma set_trim: "set (trim s) \<subseteq> set s"
  by (auto simp: trim_def dest!: set_dropWhileD)

lemma set_replace_runs: "c \<in> set (replace_runs p r s) \<Longrightarrow> (c \<in> set s \<and> \<not> p c) \<or> c \<in> set r"
  by (induction p r s rule: replace_runs.induct) (auto split: if_splits dest: set_dropWhileD)

lemma split_char_not_Nil: "split_char sep s \<noteq> []"
  by (induction s) (simp_all split: list.splits)

lemma split_char_all: "\<forall>w\<in>set (split_char sep s). \<forall>c\<in>set w. c \<in> set s \<and> c \<noteq> sep"
  by (induction s) (auto split: list.splits)

lemma split_char_sets: "w \<in> set (split_char sep s) \<Longrightarrow> c \<in> set w \<Longrightarrow> c \<in> set s \<and> c \<noteq> sep"
  using split_char_all by blast

lemma split_char_none: "\<forall>c\<in>set s. c \<noteq> sep \<Longrightarrow> split_char sep s = [s]"
  by (induction s) simp_all

lemma split_char_append:
  "\<forall>c\<in>set w. c \<noteq> sep \<Longrightarrow> split_char sep (w @ sep # s) = w # split_char sep s"
  by (induction w) simp_all

lemma set_join: "c \<in> set (join sep ws) \<Longrightarrow> c \<in> set sep \<or> (\<exists>w\<in>set ws. c \<in> set w)"
  by (induction sep ws rule: join.induct) auto

lemma split_runs_not_Nil: "split_runs p s \<noteq> []"
  by (induction p s rule: split_runs.induct) (simp_all split: list.splits)

lemma split_runs_all: "\<forall>w\<in>set (split_runs p s). \<forall>c\<in>set w. c \<in> set s \<and> \<not> p c"
proof (induction p s rule: split_runs.induct)
  case (1 p)
  show ?case by simp
next
  case (2 p c cs)
  show ?case
  proof (cases "p c")
    case True
    with 2(1) have "\<forall>w\<in>set (split_runs p (dropWhile p cs)). \<forall>x\<in>set w. x \<in> set cs \<and> \<not> p x"
      using set_dropWhileD [of _ p cs] by blast
    with True show ?thesis by simp
  next
    case False
    obtain w0 ws0 where w0: "split_runs p cs = w0 # ws0"
      using split_runs_not_Nil [of p cs] by (cases "split_runs p cs") auto
    with 2(2) [OF False] False show ?thesis
      by simp
  qed
qed

lemma split_runs_first: "hd (split_runs p s) \<noteq> [] \<Longrightarrow> s \<noteq> [] \<and> hd s = hd (hd (split_runs p s))"
  by (cases s) (auto split: list.splits if_splits)

lemma split_runs_append:
  "\<forall>c\<in>set w. \<not> p c \<Longrightarrow> p x \<Longrightarrow>
   split_runs p (w @ x # s) = w # split_runs p (dropWhile p s)"
  by (induction w) simp_all

lemma join_Cons: "join sep (w # ws) = (if ws = [] then w else w @ sep @ join sep ws)"
  by (cases ws) simp_all

lemma join_Nil_iff: "\<forall>w\<in>set ws. w \<noteq> [] \<Longrightarrow> join sep ws = [] \<longleftrightarrow> ws = []"
  by (cases ws) (auto simp: join_Cons)

lemma hd_join: "w \<noteq> [] \<Longrightarrow> hd (join sep (w # ws)) = hd w"
  by (simp add: join_Cons)

lemma map_join: "map f (join sep ws) = join (map f sep) (map (map f) ws)"
  by (induction sep ws rule: join.induct) simp_all

lemma set_split_pairs: "c \<in> set (split_pairs p q s) \<Longrightarrow> c = space \<or> c \<in> set s"
  by (induction p q s rule: split_pairs.induct) (auto split: if_splits)

lemma set_split_acronym: "x \<in> set (split_acronym s) \<Longrightarrow> x = space \<or> x \<in> set s"
proof (induction s arbitrary: x rule: split_acronym.induct)
  case 1
  then show ?case by simp
next
  case (2 c cs)
  define run where "run = takeWhile upper (c # cs)"
  define rest where "rest = dropWhile upper (c # cs)"
  define tail where "tail = takeWhile lower_digit rest"
  show ?case
  proof (cases "2 \<le> length run \<and> tail \<noteq> []")
    case True
    then have eq: "split_acronym (c # cs) =
        butlast run @ space # last run # tail @ split_acronym (dropWhile lower_digit rest)"
      by (simp add: run_def rest_def tail_def Let_def del: takeWhile.simps dropWhile.simps)
    have run: "set run \<subseteq> set (c # cs)" and rest: "set rest \<subseteq> set (c # cs)"
      unfolding run_def rest_def by (auto dest: set_takeWhileD set_dropWhileD simp del: takeWhile.simps dropWhile.simps)
    have "run \<noteq> []"
      using True by auto
    then have "last run \<in> set (c # cs)" "set (butlast run) \<subseteq> set (c # cs)"
      using run by (auto dest: in_set_butlastD last_in_set)
    moreover have "set tail \<subseteq> set (c # cs)" "set (dropWhile lower_digit rest) \<subseteq> set (c # cs)"
      using rest unfolding tail_def by (auto dest: set_takeWhileD set_dropWhileD)
    moreover have "y \<in> set (split_acronym (dropWhile lower_digit rest)) \<Longrightarrow>
        y = space \<or> y \<in> set (dropWhile lower_digit rest)" for y
      using 2(1) [OF run_def rest_def tail_def True] .
    ultimately show ?thesis
      using 2(3) unfolding eq by auto
  next
    case False
    then have eq: "split_acronym (c # cs) = c # split_acronym cs"
      by (auto simp: run_def rest_def tail_def Let_def simp del: takeWhile.simps dropWhile.simps)
    have "y \<in> set (split_acronym cs) \<Longrightarrow> y = space \<or> y \<in> set cs" for y
      using 2(2) [OF run_def rest_def tail_def False] .
    then show ?thesis
      using 2(3) unfolding eq by auto
  qed
qed

lemma replace_runs_join:
  assumes "\<forall>w\<in>set ws. w \<noteq> [] \<and> (\<forall>c\<in>set w. \<not> p c)" "p x"
  shows "replace_runs p r (join [x] ws) = join r ws"
  using assms
proof (induction ws)
  case Nil
  show ?case by simp
next
  case (Cons w ws)
  show ?case
  proof (cases ws)
    case Nil
    with Cons.prems show ?thesis by (simp add: replace_runs_none)
  next
    case (Cons w' ws')
    have "dropWhile p (join [x] ws) = join [x] ws"
      using Cons Cons.prems by (intro dropWhile_hd) (auto simp: join_Cons)
    then show ?thesis
      using Cons Cons.prems Cons.IH by (simp add: replace_runs_append_left)
  qed
qed

lemma split_runs_join:
  assumes "\<forall>w\<in>set ws. w \<noteq> [] \<and> (\<forall>c\<in>set w. \<not> p c)" "p x" "ws \<noteq> []"
  shows "split_runs p (join [x] ws) = ws"
  using assms
proof (induction ws)
  case Nil
  then show ?case by simp
next
  case (Cons w ws)
  show ?case
  proof (cases ws)
    case Nil
    with Cons.prems show ?thesis by (simp add: split_runs_none)
  next
    case (Cons w' ws')
    have "dropWhile p (join [x] ws) = join [x] ws"
      using Cons Cons.prems by (intro dropWhile_hd) (auto simp: join_Cons)
    then show ?thesis
      using Cons Cons.prems Cons.IH by (simp add: split_runs_append)
  qed
qed

section \<open>The acronym boundary as a backtracking match\<close>

lemma find_only:
  assumes "k \<in> set xs" "P k" "\<forall>j\<in>set xs. P j \<longrightarrow> j = k"
  shows "find P xs = Some k"
  using assms
proof (induction xs)
  case Nil
  then show ?case by simp
next
  case (Cons x xs)
  show ?case
  proof (cases "P x")
    case True
    with Cons.prems(3) have "x = k" by simp
    with True show ?thesis by simp
  next
    case False
    with Cons.prems have inside: "k \<in> set xs" and only: "\<forall>j\<in>set xs. P j \<longrightarrow> j = k"
      by auto
    have "find P xs = Some k"
      using inside Cons.prems(2) only by (rule Cons.IH)
    with False show ?thesis by simp
  qed
qed

lemma drop_takeWhile_length: "drop (length (takeWhile p s)) s = dropWhile p s"
  by (induction s) simp_all

lemma take_takeWhile_length: "take (length (takeWhile p s)) s = takeWhile p s"
  by (induction s) simp_all

lemma nth_in_run: "k < length (takeWhile p s) \<Longrightarrow> p (s ! k)"
  using nth_mem [of k "takeWhile p s"] set_takeWhileD [of "s ! k" p s]
  by (simp add: takeWhile_nth)

lemma capital_word_in_run:
  assumes "k < length (takeWhile upper s)"
  shows "capital_word (drop k s) =
     (if Suc k = length (takeWhile upper s) \<and> takeWhile lower_digit (dropWhile upper s) \<noteq> []
      then Some (s ! k # takeWhile lower_digit (dropWhile upper s)) else None)"
proof -
  let ?n = "length (takeWhile upper s)"
  have len: "?n \<le> length s"
    by (rule length_takeWhile_le)
  then have k: "k < length s"
    using assms by simp
  then have split: "drop k s = s ! k # drop (Suc k) s"
    by (simp add: Cons_nth_drop_Suc)
  have up: "upper (s ! k)"
    using assms by (rule nth_in_run)
  show ?thesis
  proof (cases "Suc k = ?n")
    case True
    then have "drop (Suc k) s = dropWhile upper s"
      by (simp add: drop_takeWhile_length)
    then show ?thesis
      using True up by (simp add: capital_word_def split)
  next
    case False
    then have next_in: "Suc k < ?n"
      using assms by simp
    then have "upper (s ! Suc k)" "Suc k < length s"
      using len by (simp_all add: nth_in_run)
    then have "drop (Suc k) s = s ! Suc k # drop (Suc (Suc k)) s" "\<not> lower_digit (s ! Suc k)"
      by (auto simp: Cons_nth_drop_Suc class_defs)
    then show ?thesis
      using False by (simp add: capital_word_def split)
  qed
qed

lemma capital_word_behind_run: "capital_word (drop (length (takeWhile upper s)) s) = None"
proof (cases "dropWhile upper s")
  case Nil
  show ?thesis
    unfolding drop_takeWhile_length Nil capital_word_def by simp
next
  case (Cons x xs)
  then have "\<not> upper x"
    using hd_dropWhile [of upper s] by simp
  then show ?thesis
    unfolding drop_takeWhile_length Cons capital_word_def by simp
qed

lemma acronym_match_eq:
  "acronym_match s =
     (let run = takeWhile upper s;
          rest = dropWhile upper s;
          tail = takeWhile lower_digit rest
      in if 2 \<le> length run \<and> tail \<noteq> [] then Some (butlast run, last run # tail) else None)"
proof -
  define n where "n = length (takeWhile upper s)"
  define tail where "tail = takeWhile lower_digit (dropWhile upper s)"
  define P where "P = (\<lambda>k. capital_word (drop k s) \<noteq> None)"
  have hit: "P k \<longleftrightarrow> Suc k = n \<and> tail \<noteq> []" if "k \<le> n" for k
  proof (cases "k = n")
    case True
    then show ?thesis by (simp add: P_def n_def capital_word_behind_run)
  next
    case False
    with that have "k < length (takeWhile upper s)" by (simp add: n_def)
    then show ?thesis by (simp add: P_def n_def tail_def capital_word_in_run)
  qed
  have members: "j \<in> set (rev [1..<Suc n]) \<longleftrightarrow> 1 \<le> j \<and> j \<le> n" for j
    by auto
  show ?thesis
  proof (cases "2 \<le> n \<and> tail \<noteq> []")
    case True
    have "1 \<le> n - 1 \<and> n - 1 \<le> n"
      using True by arith
    then have "n - 1 \<in> set (rev [1..<Suc n])"
      by (simp only: members)
    moreover have "P (n - 1)"
      using True hit [of "n - 1"] by simp
    moreover have "j = n - 1" if "j \<in> set (rev [1..<Suc n])" "P j" for j
    proof -
      from that(1) have "j \<le> n" by (simp only: members)
      from hit [OF this] that(2) show ?thesis by auto
    qed
    then have "\<forall>j\<in>set (rev [1..<Suc n]). P j \<longrightarrow> j = n - 1"
      by blast
    ultimately have found: "find P (rev [1..<Suc n]) = Some (n - 1)"
      by (rule find_only)
    have run: "takeWhile upper s \<noteq> []" "n - 1 < length (takeWhile upper s)"
      using True by (auto simp: n_def)
    have "butlast (takeWhile upper s) = take (n - 1) (take n s)"
      by (simp only: butlast_conv_take n_def take_takeWhile_length)
    then have g1: "take (n - 1) s = butlast (takeWhile upper s)"
      by (simp add: min_def)
    have "last (takeWhile upper s) = takeWhile upper s ! (n - 1)"
      using run(1) by (simp add: last_conv_nth n_def)
    then have "s ! (n - 1) = last (takeWhile upper s)"
      using run(2) by (simp add: takeWhile_nth)
    moreover have "capital_word (drop (n - 1) s) = Some (s ! (n - 1) # tail)"
      using True run(2) by (simp add: capital_word_in_run tail_def n_def)
    ultimately have "map_option (Pair (take (n - 1) s)) (capital_word (drop (n - 1) s)) =
        Some (butlast (takeWhile upper s), last (takeWhile upper s) # tail)"
      by (simp only: g1 option.map)
    then have "acronym_match s = Some (butlast (takeWhile upper s), last (takeWhile upper s) # tail)"
      unfolding acronym_match_def found [unfolded P_def n_def] by (simp only: option.case n_def)
    then show ?thesis
      using True by (simp add: Let_def n_def tail_def)
  next
    case False
    have "\<not> P j" if "j \<in> set (rev [1..<Suc n])" for j
    proof -
      from that have j: "1 \<le> j" "j \<le> n" by (simp_all only: members)
      from hit [OF j(2)] j(1) False show ?thesis by auto
    qed
    then have "find P (rev [1..<Suc n]) = None"
      by (simp only: find_None_iff) blast
    then have "acronym_match s = None"
      unfolding acronym_match_def P_def n_def by (simp only: option.case)
    then show ?thesis
      using False by (auto simp: Let_def n_def tail_def)
  qed
qed

lemma split_acronym_backtracking:
  "split_acronym (c # cs) =
     (case acronym_match (c # cs) of
        None \<Rightarrow> c # split_acronym cs
      | Some (g1, g2) \<Rightarrow>
          g1 @ space # g2 @ split_acronym (drop (length g1 + length g2) (c # cs)))"
proof -
  let ?s = "c # cs"
  let ?run = "takeWhile upper ?s" and ?rest = "dropWhile upper ?s"
  let ?tail = "takeWhile lower_digit ?rest"
  show ?thesis
  proof (cases "2 \<le> length ?run \<and> ?tail \<noteq> []")
    case True
    then have "length (butlast ?run) + length (last ?run # ?tail) = length ?run + length ?tail"
      by simp
    moreover have "drop (length ?tail) (drop (length ?run) ?s) = dropWhile lower_digit ?rest"
      by (simp only: drop_takeWhile_length)
    then have "drop (length ?run + length ?tail) ?s = dropWhile lower_digit ?rest"
      by (simp only: drop_drop add.commute)
    ultimately show ?thesis
      using True
      by (simp add: acronym_match_eq Let_def del: takeWhile.simps dropWhile.simps butlast.simps last.simps)
  next
    case False
    then show ?thesis
      by (auto simp: acronym_match_eq Let_def simp del: takeWhile.simps dropWhile.simps)
  qed
qed

section \<open>ASCII characters and case mapping\<close>

lemma alnum_ascii: "alnum c \<Longrightarrow> c < 128"
  by (auto simp: class_defs)

lemma alnum_not_space: "alnum c \<Longrightarrow> \<not> js_space c \<and> \<not> camel_sep c \<and> c \<noteq> space \<and> alnum_space c"
  by (auto simp: class_defs)

lemma alnum_ascii_lower: "alnum c \<Longrightarrow> alnum (ascii_lower c)"
  by (auto simp: class_defs ascii_lower_def)

lemma alnum_ascii_upper: "alnum c \<Longrightarrow> alnum (ascii_upper c)"
  by (auto simp: class_defs ascii_upper_def)

lemma toLowerCase_alnum: "\<forall>c\<in>set w. alnum c \<Longrightarrow> toLowerCase u w = map ascii_lower w"
  by (simp add: toLowerCase_def case_map_ascii alnum_ascii)

lemma toUpperCase_alnum: "\<forall>c\<in>set w. alnum c \<Longrightarrow> toUpperCase u w = map ascii_upper w"
  by (simp add: toUpperCase_def case_map_ascii alnum_ascii)

lemma lower_facts:
  assumes "lower c"
  shows "alnum c" "\<not> upper c" "\<not> digit c" "\<not> kebab_sep c" "letter c" "ascii_lower c = c"
    "c \<noteq> dot" "\<not> js_space c" "\<not> camel_sep c" "c \<noteq> space" "alnum_space c" "c < 128"
  using assms by (auto simp: class_defs ascii_lower_def)

lemma dot_facts: "\<not> js_space dot \<and> \<not> kebab_sep dot \<and> \<not> upper dot \<and> \<not> digit dot \<and> \<not> letter dot \<and> dot < 128 \<and> camel_sep dot"
  by (simp add: class_defs)

lemma toLowerCase_lower: "\<forall>c\<in>set w. lower c \<Longrightarrow> toLowerCase u w = w"
  by (simp add: toLowerCase_alnum lower_facts map_idI)

lemma lower_digit_facts:
  assumes "lower c \<or> digit c"
  shows "\<not> kebab_sep c" "\<not> js_space c" "\<not> upper c" "c < 128" "ascii_lower c = c"
    "is_L u c \<or> is_N u c" "c \<noteq> space" "c \<noteq> hyphen" "alnum c"
  using assms by (auto simp: class_defs ascii_lower_def is_L_def is_N_def)

lemma space_facts: "\<not> letter space" "\<not> digit space" "js_space space" "kebab_sep hyphen"
  "\<not> upper space" "\<not> upper hyphen" "hyphen < 128" "ascii_lower hyphen = hyphen"
  by (simp_all add: class_defs ascii_lower_def)

lemma alnum_facts:
  assumes "alnum c"
  shows "is_L u c \<or> is_N u c" "c < 128" "c \<noteq> space"
  using assms by (auto simp: class_defs is_L_def is_N_def)

section \<open>The words of \<open>camelCase\<close> and \<open>dotCase\<close>\<close>

lemma cleaned_of_alnum_space: "c \<in> set (cleaned_of s) \<Longrightarrow> alnum_space c"
proof -
  assume "c \<in> set (cleaned_of s)"
  then have "c \<in> set (replace_runs (\<lambda>c. \<not> alnum_space c) [] (replace_runs camel_sep [space] s))"
    using set_trim by (auto simp: cleaned_of_def)
  then show ?thesis
    by (simp add: replace_runs_delete)
qed

lemma words_alnum:
  assumes "w \<in> set (split_char space (cleaned_of s))" "c \<in> set w"
  shows "alnum c"
  using split_char_sets [OF assms] cleaned_of_alnum_space [of c s]
  by (auto simp: alnum_space_def)

text \<open>The words of camelCase, as they are mapped.\<close>

lemma camel_word_alnum:
  assumes "\<forall>c\<in>set w. alnum c"
  shows "\<forall>c\<in>set (if idx = (0::nat) then toLowerCase u w
                   else toUpperCase u (charAt0 w) @ toLowerCase u (slice1 w)). alnum c"
proof -
  have "\<forall>c\<in>set (charAt0 w). alnum c" "\<forall>c\<in>set (slice1 w). alnum c"
    using assms by (auto simp: charAt0_def slice1_def dest: in_set_takeD in_set_dropD)
  then show ?thesis
    using assms by (auto simp: toLowerCase_alnum toUpperCase_alnum alnum_ascii_lower alnum_ascii_upper)
qed

lemma camelCase_alnum: "\<exists>t. camelCase u (JString s) = Inr t \<and> list_all alnum t"
proof -
  have "alnum c" if "c \<in> set (join [] (map (\<lambda>(idx, word).
         if idx = 0 then toLowerCase u word
         else toUpperCase u (charAt0 word) @ toLowerCase u (slice1 word))
       (enumerate 0 (split_char space (cleaned_of s)))))" for c
  proof -
    from set_join [OF that] obtain idx w where
      iw: "(idx, w) \<in> set (enumerate 0 (split_char space (cleaned_of s)))"
      and c: "c \<in> set (if idx = 0 then toLowerCase u w
                        else toUpperCase u (charAt0 w) @ toLowerCase u (slice1 w))"
      by auto
    from iw have "w \<in> set (split_char space (cleaned_of s))"
      by (auto simp: in_set_enumerate_eq)
    then have "\<forall>c\<in>set w. alnum c"
      using words_alnum by blast
    from camel_word_alnum [OF this] c show ?thesis
      by blast
  qed
  then show ?thesis
    by (simp add: Let_def list_all_iff)
qed

lemma dotCase_alnum: "\<exists>t. dotCase u (JString s) = Inr t \<and> list_all (\<lambda>c. alnum c \<or> c = dot) t"
proof -
  have "alnum c \<or> c = dot"
    if "c \<in> set (join [dot] (map (toLowerCase u) (split_char space (cleaned_of s))))" for c
  proof -
    from set_join [OF that] consider "c = dot"
      | w where "w \<in> set (split_char space (cleaned_of s))" "c \<in> set (toLowerCase u w)"
      by auto
    then show ?thesis
    proof cases
      case 1
      then show ?thesis by simp
    next
      case 2
      then have "\<forall>c\<in>set w. alnum c"
        using words_alnum by blast
      with 2 show ?thesis
        by (auto simp: toLowerCase_alnum alnum_ascii_lower)
    qed
  qed
  then show ?thesis
    by (simp add: Let_def list_all_iff)
qed

lemma cleaned_of_no_alnum:
  assumes "\<forall>c\<in>set s. \<not> alnum c"
  shows "cleaned_of s = []"
proof -
  have "js_space c"
    if "c \<in> set (replace_runs (\<lambda>c. \<not> alnum_space c) [] (replace_runs camel_sep [space] s))" for c
  proof -
    from that have "c \<in> set (replace_runs camel_sep [space] s)" "alnum_space c"
      by (simp_all add: replace_runs_delete)
    with set_replace_runs [of c camel_sep "[space]" s] assms show ?thesis
      by (auto simp: alnum_space_def js_space_def space_def)
  qed
  then show ?thesis
    by (simp add: cleaned_of_def trim_Nil_iff)
qed

lemma camelCase_alnum_word:
  assumes "\<forall>c\<in>set t. alnum c"
  shows "camelCase u (JString t) = Inr (map ascii_lower t)"
proof (cases "t = []")
  case True
  then show ?thesis by (simp add: trim_def)
next
  case False
  have hd_last: "alnum (hd t)" "alnum (last t)"
    using False assms by simp_all
  have "trim t = t"
    using False hd_last by (simp add: trim_id alnum_not_space)
  moreover have "replace_runs camel_sep [space] t = t"
    using assms by (simp add: replace_runs_none alnum_not_space)
  moreover have "filter alnum_space t = t"
    using assms by (simp add: alnum_not_space)
  ultimately have "cleaned_of t = t"
    by (simp add: cleaned_of_def replace_runs_delete)
  moreover have "split_char space t = [t]"
    using assms by (intro split_char_none) (auto simp: alnum_not_space)
  ultimately show ?thesis
    using False \<open>trim t = t\<close> assms by (simp add: toLowerCase_alnum)
qed

section \<open>Boundaries between letters and digits\<close>

lemma adjacent_Cons: "adjacent p q (a # s) = (s \<noteq> [] \<and> p a \<and> q (hd s) \<or> adjacent p q s)"
  by (cases s) auto

lemma adjacent_append:
  "adjacent p q (xs @ ys) =
     (adjacent p q xs \<or> adjacent p q ys \<or> (xs \<noteq> [] \<and> ys \<noteq> [] \<and> p (last xs) \<and> q (hd ys)))"
  by (induction xs) (auto simp: adjacent_Cons hd_append)

lemma adjacent_none_fst: "\<forall>c\<in>set s. \<not> p c \<Longrightarrow> \<not> adjacent p q s"
  by (induction s) (auto simp: adjacent_Cons)

lemma adjacent_none_snd: "\<forall>c\<in>set s. \<not> q c \<Longrightarrow> \<not> adjacent p q s"
  by (induction s) (auto simp: adjacent_Cons)

lemma split_pairs_no_adjacent: "\<not> adjacent p q s \<Longrightarrow> split_pairs p q s = s"
  by (induction p q s rule: split_pairs.induct) auto

lemma split_pairs_hd: "hd (split_pairs p q s) = hd s"
  by (induction p q s rule: split_pairs.induct) simp_all

lemma split_pairs_Nil_iff: "split_pairs p q s = [] \<longleftrightarrow> s = []"
  by (induction p q s rule: split_pairs.induct) simp_all

lemma split_pairs_splits:
  assumes "\<forall>c. \<not> (p c \<and> q c)" "\<not> p space" "\<not> q space"
  shows "\<not> adjacent p q (split_pairs p q s)"
  using assms
proof (induction p q s rule: split_pairs.induct)
  case (1 p q a b cs)
  show ?case
  proof (cases "p a \<and> q b")
    case True
    then have "\<not> p b"
      using 1 by blast
    moreover have "\<not> adjacent p q (split_pairs p q cs)"
      using True 1 by simp
    ultimately show ?thesis
      using True 1 by (simp add: adjacent_Cons)
  next
    case False
    then have step: "split_pairs p q (a # b # cs) = a # split_pairs p q (b # cs)"
      by auto
    have "\<not> adjacent p q (split_pairs p q (b # cs))"
      using False 1 by simp
    then show ?thesis
      using False unfolding step by (simp add: adjacent_Cons split_pairs_hd del: split_pairs.simps)
  qed
qed simp_all

lemma split_pairs_keeps:
  assumes "\<not> p space" "\<not> q space"
  shows "adjacent p q (split_pairs p' q' s) \<Longrightarrow> adjacent p q s"
  using assms
proof (induction p' q' s rule: split_pairs.induct)
  case (1 p' q' a b cs)
  show ?case
  proof (cases "p' a \<and> q' b")
    case True
    then have "adjacent p q (b # split_pairs p' q' cs)"
      using 1 by (simp add: adjacent_Cons)
    then have "split_pairs p' q' cs \<noteq> [] \<and> p b \<and> q (hd (split_pairs p' q' cs)) \<or>
        adjacent p q (split_pairs p' q' cs)"
      by (simp add: adjacent_Cons)
    then have "cs \<noteq> [] \<and> p b \<and> q (hd cs) \<or> adjacent p q cs"
      using True 1 by (auto simp: split_pairs_hd split_pairs_Nil_iff)
    then show ?thesis
      by (simp add: adjacent_Cons)
  next
    case False
    then have step: "split_pairs p' q' (a # b # cs) = a # split_pairs p' q' (b # cs)"
      by auto
    from 1(3) have "p a \<and> q b \<or> adjacent p q (split_pairs p' q' (b # cs))"
      unfolding step by (simp add: adjacent_Cons split_pairs_hd split_pairs_Nil_iff del: split_pairs.simps)
    then show ?thesis
      using False 1 by auto
  qed
qed simp_all

lemma adjacent_dropWhile: "adjacent a b (dropWhile p s) \<Longrightarrow> adjacent a b s"
  by (induction s) (auto simp: adjacent_Cons split: if_splits)

lemma split_runs_adjacent:
  "\<forall>w\<in>set (split_runs p s). adjacent a b w \<longrightarrow> adjacent a b s"
proof (induction p s rule: split_runs.induct)
  case (1 p)
  show ?case by simp
next
  case (2 p c cs)
  show ?case
  proof (cases "p c")
    case True
    with 2 show ?thesis
      by (auto simp: adjacent_Cons dest: adjacent_dropWhile)
  next
    case False
    obtain w0 ws0 where w0: "split_runs p cs = w0 # ws0"
      using split_runs_not_Nil [of p cs] by (cases "split_runs p cs") auto
    have first: "w0 \<noteq> [] \<Longrightarrow> cs \<noteq> [] \<and> hd cs = hd w0"
      using split_runs_first [of p cs] w0 by simp
    have "adjacent a b (c # w0) \<Longrightarrow> adjacent a b (c # cs)"
      using 2(2) [OF False] w0 first by (auto simp: adjacent_Cons)
    moreover have "\<forall>w\<in>set ws0. adjacent a b w \<longrightarrow> adjacent a b (c # cs)"
      using 2(2) [OF False] w0 by (auto simp: adjacent_Cons)
    ultimately show ?thesis
      using False w0 by simp
  qed
qed

lemma pure_word:
  assumes "\<forall>c\<in>set w. alnum c" "\<not> adjacent letter digit w" "\<not> adjacent digit letter w"
  shows "(\<forall>c\<in>set w. letter c) \<or> (\<forall>c\<in>set w. digit c)"
  using assms
proof (induction w)
  case Nil
  show ?case by simp
next
  case (Cons a w)
  have disjoint: "\<not> (letter c \<and> digit c)" for c
    by (auto simp: class_defs)
  show ?case
  proof (cases "w = []")
    case True
    with Cons.prems show ?thesis by (auto simp: alnum_def)
  next
    case False
    then have "hd w \<in> set w" by simp
    with Cons False disjoint [of a] disjoint [of "hd w"] show ?thesis
      by (auto simp: adjacent_Cons alnum_def)
  qed
qed

lemma adjacent_join:
  assumes "\<forall>w\<in>set ws. \<not> adjacent p q w" "\<not> p space" "\<not> q space"
  shows "\<not> adjacent p q (join [space] ws)"
  using assms
  by (induction ws) (auto simp: join_Cons adjacent_append adjacent_Cons)

section \<open>The words of \<open>toKebabCase\<close>\<close>

lemma toKebabCase_nonblank:
  "trim s \<noteq> [] \<Longrightarrow>
   toKebabCase u (JString s) =
     Inr (toLowerCase u (join [hyphen] (filter (\<lambda>w. w \<noteq> []) (split_runs js_space
       (filter (\<lambda>c. is_L u c \<or> is_N u c \<or> js_space c)
         (split_pairs digit letter (split_pairs letter digit (split_acronym
           (split_pairs lower_digit upper (replace_runs kebab_sep [space] s))))))))))"
  by (simp add: Let_def replace_runs_delete)

lemma kebab_word_chars: "kebab_word w \<Longrightarrow> c \<in> set w \<Longrightarrow> lower c \<or> digit c"
  by (auto simp: kebab_word_def list_all_iff)

lemma kebab_word_no_adjacent:
  assumes "kebab_word w"
  shows "\<not> adjacent letter digit w" "\<not> adjacent digit letter w"
proof -
  have "(\<forall>c\<in>set w. \<not> digit c) \<or> (\<forall>c\<in>set w. \<not> letter c)"
    using assms by (auto simp: kebab_word_def list_all_iff class_defs)
  then show "\<not> adjacent letter digit w" "\<not> adjacent digit letter w"
    using adjacent_none_fst adjacent_none_snd by blast+
qed

lemma kebab_fixed_point:
  assumes words: "\<forall>w\<in>set ws. kebab_word w"
  shows "toKebabCase u (JString (join [hyphen] ws)) = Inr (join [hyphen] ws)"
proof (cases "ws = []")
  case True
  then show ?thesis by (simp add: trim_def)
next
  case False
  let ?t = "join [hyphen] ws" and ?r = "join [space] ws"
  have ne: "\<forall>w\<in>set ws. w \<noteq> []"
    using words by (auto simp: kebab_word_def)
  have ch: "lower c \<or> digit c" if "w \<in> set ws" "c \<in> set w" for w c
    using that words kebab_word_chars by blast
  obtain w ws' where ws: "ws = w # ws'"
    using False by (cases ws) auto
  then have "w \<noteq> []" "lower (hd w) \<or> digit (hd w)"
    using ne ch [of w "hd w"] by auto
  then have "hd ?t \<in> set ?t" "\<not> js_space (hd ?t)"
    using ws by (auto simp: join_Cons lower_digit_facts)
  then have not_blank: "trim ?t \<noteq> []"
    by (auto simp: trim_Nil_iff)
  have r1: "replace_runs kebab_sep [space] ?t = ?r"
    using ne ch by (intro replace_runs_join) (auto simp: lower_digit_facts space_facts)
  have r_chars: "c = space \<or> lower c \<or> digit c" if "c \<in> set ?r" for c
    using set_join [OF that] ch by auto
  then have no_upper: "\<forall>c\<in>set ?r. \<not> upper c"
    using space_facts lower_digit_facts(3) by blast
  have "\<forall>w\<in>set ws. \<not> adjacent letter digit w" "\<forall>w\<in>set ws. \<not> adjacent digit letter w"
    using words kebab_word_no_adjacent by blast+
  then have "\<not> adjacent letter digit ?r" "\<not> adjacent digit letter ?r"
    by (simp_all add: adjacent_join space_facts)
  then have r4: "split_pairs letter digit ?r = ?r" and r5: "split_pairs digit letter ?r = ?r"
    by (simp_all add: split_pairs_no_adjacent)
  have "is_L u c \<or> is_N u c \<or> js_space c" if "c \<in> set ?r" for c
    using r_chars [OF that] lower_digit_facts(6) [of c u] space_facts(3) by blast
  then have r6: "filter (\<lambda>c. is_L u c \<or> is_N u c \<or> js_space c) ?r = ?r"
    by (intro filter_True) blast
  have r7: "split_runs js_space ?r = ws"
    using ne ch False by (intro split_runs_join) (auto simp: lower_digit_facts space_facts)
  have "c < 128 \<and> ascii_lower c = c" if "c \<in> set ?t" for c
    using set_join [OF that] ch by (auto simp: lower_digit_facts space_facts)
  then have r8: "toLowerCase u ?t = ?t"
    by (simp add: toLowerCase_def case_map_ascii map_idI)
  have keep: "filter (\<lambda>w. w \<noteq> []) ws = ws"
    using ne by (intro filter_True) auto
  show ?thesis
    by (simp only: toKebabCase_nonblank [OF not_blank] r1 split_pairs_none_snd [OF no_upper]
        split_acronym_none [OF no_upper] r4 r5 r6 r7 keep r8)
qed

lemma ascii_lower_word:
  assumes "w \<noteq> []" "(\<forall>c\<in>set w. letter c) \<or> (\<forall>c\<in>set w. digit c)"
  shows "kebab_word (map ascii_lower w)"
proof -
  have "letter c \<Longrightarrow> lower (ascii_lower c)" "digit c \<Longrightarrow> digit (ascii_lower c)" for c
    by (auto simp: class_defs ascii_lower_def)
  then show ?thesis
    using assms by (auto simp: kebab_word_def list_all_iff)
qed

lemma kebab_normal_form:
  assumes input: "\<forall>c\<in>set s. alnum c \<or> kebab_sep c"
  shows "\<exists>ws. (\<forall>w\<in>set ws. kebab_word w) \<and> toKebabCase u (JString s) = Inr (join [hyphen] ws)"
proof (cases "trim s = []")
  case True
  then have "toKebabCase u (JString s) = Inr (join [hyphen] [])"
    by simp
  then show ?thesis
    by (intro exI [of _ "[]"]) simp
next
  case False
  define r1 where "r1 = replace_runs kebab_sep [space] s"
  define r2 where "r2 = split_pairs lower_digit upper r1"
  define r3 where "r3 = split_acronym r2"
  define r4 where "r4 = split_pairs letter digit r3"
  define r5 where "r5 = split_pairs digit letter r4"
  define words where "words = filter (\<lambda>w. w \<noteq> []) (split_runs js_space r5)"
  have c1: "c = space \<or> alnum c" if "c \<in> set r1" for c
    using set_replace_runs [of c kebab_sep "[space]" s] that input
    by (auto simp: r1_def)
  have c2: "c = space \<or> alnum c" if "c \<in> set r2" for c
    using set_split_pairs [of c lower_digit upper r1] that c1 by (auto simp: r2_def)
  have c3: "c = space \<or> alnum c" if "c \<in> set r3" for c
    using set_split_acronym [of c r2] that c2 by (auto simp: r3_def)
  have c4: "c = space \<or> alnum c" if "c \<in> set r4" for c
    using set_split_pairs [of c letter digit r3] that c3 by (auto simp: r4_def)
  have c5: "c = space \<or> alnum c" if "c \<in> set r5" for c
    using set_split_pairs [of c digit letter r4] that c4 by (auto simp: r5_def)
  have disjoint: "\<forall>c. \<not> (letter c \<and> digit c)" "\<forall>c. \<not> (digit c \<and> letter c)"
    by (auto simp: class_defs)
  have "\<not> adjacent letter digit r4"
    unfolding r4_def using disjoint(1) space_facts(1,2) by (rule split_pairs_splits)
  then have a1: "\<not> adjacent letter digit r5"
    unfolding r5_def
    using split_pairs_keeps [of letter digit digit letter r4] space_facts(1,2) by blast
  have a2: "\<not> adjacent digit letter r5"
    unfolding r5_def using disjoint(2) space_facts(2,1) by (rule split_pairs_splits)
  have "is_L u c \<or> is_N u c \<or> js_space c" if "c \<in> set r5" for c
    using c5 [OF that] alnum_facts(1) [of c u] space_facts(3) by blast
  then have r6: "filter (\<lambda>c. is_L u c \<or> is_N u c \<or> js_space c) r5 = r5"
    by (intro filter_True) blast
  have word: "w \<noteq> [] \<and> ((\<forall>c\<in>set w. letter c) \<or> (\<forall>c\<in>set w. digit c))" if "w \<in> set words" for w
  proof -
    from that have w: "w \<in> set (split_runs js_space r5)" "w \<noteq> []"
      by (simp_all add: words_def)
    have "alnum c" if "c \<in> set w" for c
      using split_runs_all [of js_space r5] w(1) that c5 [of c] space_facts(3) by blast
    moreover have "\<not> adjacent letter digit w" "\<not> adjacent digit letter w"
      using split_runs_adjacent [of js_space r5] w(1) a1 a2 by blast+
    ultimately show ?thesis
      using pure_word [of w] w(2) by blast
  qed
  have "c < 128" if "w \<in> set words" "c \<in> set w" for w c
  proof -
    from word [OF that(1)] that(2) have "letter c \<or> digit c"
      by blast
    then show ?thesis
      by (auto simp: class_defs)
  qed
  then have "c < 128" if "c \<in> set (join [hyphen] words)" for c
    using set_join [OF that] space_facts(7) by auto
  then have "toLowerCase u (join [hyphen] words) = map ascii_lower (join [hyphen] words)"
    by (simp add: toLowerCase_def case_map_ascii)
  also have "\<dots> = join [hyphen] (map (map ascii_lower) words)"
    by (simp add: map_join space_facts)
  finally have "toKebabCase u (JString s) = Inr (join [hyphen] (map (map ascii_lower) words))"
    by (simp only: toKebabCase_nonblank [OF False] r6 [unfolded r5_def r4_def r3_def r2_def r1_def]
        words_def [unfolded r5_def r4_def r3_def r2_def r1_def, symmetric])
  moreover have "\<forall>w\<in>set (map (map ascii_lower) words). kebab_word w"
    using word by (auto intro!: ascii_lower_word)
  ultimately show ?thesis
    by blast
qed

section \<open>The literal scenarios\<close>

text \<open>
  C1. The specification and the test on line 51 of \<open>src/chain_prompt.js\<close> expect
  \<open>toKebabCase("item123Name")\<close> to be \<open>"item123-name"\<close>. The code returns
  \<open>"item-123-name"\<close>: its fourth \<open>replace\<close> puts a boundary between \<open>m\<close> and \<open>1\<close>.
\<close>

theorem toKebabCase_item123Name:
  "toKebabCase u (JString (js ''item123Name'')) = Inr (js ''item-123-name'') \<and>
   js ''item-123-name'' \<noteq> js ''item123-name''"
  by (simp add: class_defs eval_defs)

text \<open>
  C2. The specification and the test on line 53 of \<open>src/chain_prompt.js\<close> expect a hyphen between the
  two Russian words. The case-boundary \<open>replace\<close> calls of the code only know \<open>[a-z0-9]\<close> and
  \<open>[A-Z]\<close>, so with any database that has the rows of the Russian alphabet the code returns
  the nine letters in lower case, with no hyphen.
\<close>

theorem toKebabCase_privet_mir:
  assumes "russian_rows u"
  shows "toKebabCase u (JString privet_mir) =
           Inr [0x43F, 0x440, 0x438, 0x432, 0x435, 0x442, 0x43C, 0x438, 0x440] \<and>
         toKebabCase u (JString privet_mir) \<noteq> Inr privet_mir_expected"
  using assms
  by (simp add: russian_rows_def privet_mir_def privet_mir_expected_def class_defs eval_defs)

theorem toKebabCase_privet_mir_witness:
  "russian_rows ucd_russian \<and>
   toKebabCase ucd_russian (JString privet_mir) =
     Inr [0x43F, 0x440, 0x438, 0x432, 0x435, 0x442, 0x43C, 0x438, 0x440] \<and>
   toKebabCase ucd_russian (JString privet_mir) \<noteq> Inr privet_mir_expected"
  using toKebabCase_privet_mir [OF russian_rows_ucd_russian] russian_rows_ucd_russian
  by blast

text \<open>
  C6. \<open>toKebabCase("XMLHttpRequest")\<close> is \<open>"xml-http-request"\<close>: the second \<open>replace\<close> splits
  in front of \<open>Request\<close>, the third one between \<open>XML\<close> and \<open>Http\<close>.
\<close>

theorem toKebabCase_XMLHttpRequest:
  "toKebabCase u (JString (js ''XMLHttpRequest'')) = Inr (js ''xml-http-request'')"
  by (simp add: class_defs eval_defs)

text \<open>
  C7. \<open>camelCase("fooBar")\<close> is \<open>"foobar"\<close>: the input is one word, which is lower-cased as a
  whole.
\<close>

theorem camelCase_fooBar:
  "camelCase u (JString (js ''fooBar'')) = Inr (js ''foobar'')"
  by (simp add: class_defs eval_defs)

section \<open>Validation\<close>

text \<open>
  C4. Each of \<open>toKebabCase\<close>, \<open>camelCase\<close> and \<open>dotCase\<close> fails exactly when \<open>typeof\<close> of its
  argument is not \<open>"string"\<close>, the failure is the TypeError with the message
  \<open>Input must be a string\<close>, and on every string each of them returns a string.
\<close>

theorem type_check_only_failure:
  "((\<exists>e. toKebabCase u v = Inl e) \<longleftrightarrow> typeof v \<noteq> ''string'') \<and>
   ((\<exists>e. camelCase u v = Inl e) \<longleftrightarrow> typeof v \<noteq> ''string'') \<and>
   ((\<exists>e. dotCase u v = Inl e) \<longleftrightarrow> typeof v \<noteq> ''string'') \<and>
   (toKebabCase u v = Inl (TypeError ''Input must be a string'') \<longleftrightarrow> typeof v \<noteq> ''string'') \<and>
   (camelCase u v = Inl (TypeError ''Input must be a string'') \<longleftrightarrow> typeof v \<noteq> ''string'') \<and>
   (dotCase u v = Inl (TypeError ''Input must be a string'') \<longleftrightarrow> typeof v \<noteq> ''string'') \<and>
   (\<exists>r. toKebabCase u (JString s) = Inr r) \<and>
   (\<exists>r. camelCase u (JString s) = Inr r) \<and>
   (\<exists>r. dotCase u (JString s) = Inr r)"
  by (cases v) (simp_all add: Let_def)

theorem type_check_only_failure_witness:
  "toKebabCase ucd_russian JNull = Inl (TypeError ''Input must be a string'') \<and>
   camelCase ucd_russian (JNumber 123) = Inl (TypeError ''Input must be a string'') \<and>
   dotCase ucd_russian (JObject 0) = Inl (TypeError ''Input must be a string'') \<and>
   (\<exists>r. toKebabCase ucd_russian (JString (js ''null'')) = Inr r) \<and>
   (\<exists>r. camelCase ucd_russian (JString (js ''123'')) = Inr r) \<and>
   (\<exists>r. dotCase ucd_russian (JString (js ''{}'')) = Inr r)"
  using type_check_only_failure [of ucd_russian JNull "js ''null''"]
    type_check_only_failure [of ucd_russian "JNumber 123" "js ''123''"]
    type_check_only_failure [of ucd_russian "JObject 0" "js ''{}''"]
  by simp


section \<open>Blank input\<close>

text \<open>
  C5. On a string that is empty or made of white space only, \<open>toKebabCase\<close>, \<open>camelCase\<close>,
  \<open>dotCase\<close> and \<open>to_snake_case\<close> return the empty string. White space is what the runtime
  of the function calls so: the characters of \<open>\s\<close> and \<open>trim\<close> for the three JavaScript
  functions, the characters of Python's \<open>\s\<close> for \<open>to_snake_case\<close>.
\<close>

theorem blank_input_gives_empty:
  "((\<forall>c\<in>set s. js_space c) \<longrightarrow>
      toKebabCase u (JString s) = Inr [] \<and> camelCase u (JString s) = Inr [] \<and>
      dotCase u (JString s) = Inr []) \<and>
   ((\<forall>c\<in>set s. py_space c) \<longrightarrow> to_snake_case u s = [])"
proof (intro conjI impI)
  assume ws: "\<forall>c\<in>set s. py_space c"
  then have "\<forall>c\<in>set s. \<not> upper c" "\<forall>c\<in>set s. snake_sep c"
    by (auto simp: py_space_def upper_def snake_sep_def)
  then have "prefix_runs s = s" "s \<noteq> [] \<Longrightarrow> replace_runs snake_sep [underscore] s = [underscore]"
    by (simp_all add: prefix_runs_none replace_runs_all)
  then show "to_snake_case u s = []"
    by (cases "s = []") (simp_all add: to_snake_case_def toLowerCase_def strip_def underscore_def ascii_lower_def upper_def)
qed (simp_all add: trim_Nil_iff)

theorem blank_input_gives_empty_witness:
  "toKebabCase ucd_russian (JString (js ''  '')) = Inr [] \<and>
   camelCase ucd_russian (JString (js ''  '')) = Inr [] \<and>
   dotCase ucd_russian (JString (js ''  '')) = Inr [] \<and>
   to_snake_case ucd_russian (js ''  '') = []"
  using blank_input_gives_empty [of "js ''  ''" ucd_russian]
  by (simp add: js_def js_space_def py_space_def)

section \<open>The separators and the alphabet of each converter\<close>

text \<open>
  C9. \<open>camelCase\<close> and \<open>dotCase\<close> keep only ASCII letters, digits and spaces in \<open>cleaned\<close>,
  so the result of \<open>camelCase\<close> has ASCII letters and digits only, the result of \<open>dotCase\<close>
  has dots besides; and on an input whose characters are all outside ASCII or white space,
  such as the two Russian words with a space between them, both return the empty string.
\<close>

theorem camel_dot_ascii_only:
  "list_all alnum_space (cleaned_of s) \<and>
   (\<exists>t. camelCase u (JString s) = Inr t \<and> list_all alnum t) \<and>
   (\<exists>t. dotCase u (JString s) = Inr t \<and> list_all (\<lambda>c. alnum c \<or> c = dot) t) \<and>
   ((\<forall>c\<in>set s. 128 \<le> c \<or> js_space c) \<longrightarrow>
      camelCase u (JString s) = Inr [] \<and> dotCase u (JString s) = Inr [])"
proof (intro conjI impI)
  show "list_all alnum_space (cleaned_of s)"
    by (simp add: list_all_iff cleaned_of_alnum_space)
  show "\<exists>t. camelCase u (JString s) = Inr t \<and> list_all alnum t"
    by (rule camelCase_alnum)
  show "\<exists>t. dotCase u (JString s) = Inr t \<and> list_all (\<lambda>c. alnum c \<or> c = dot) t"
    by (rule dotCase_alnum)
next
  assume "\<forall>c\<in>set s. 128 \<le> c \<or> js_space c"
  then have "\<forall>c\<in>set s. \<not> alnum c"
    using alnum_ascii alnum_not_space by fastforce
  then have none: "cleaned_of s = []"
    by (rule cleaned_of_no_alnum)
  then show "camelCase u (JString s) = Inr []" "dotCase u (JString s) = Inr []"
    by simp_all
qed
theorem camel_dot_ascii_only_witness:
  "camelCase ucd_russian (JString privet_space_mir) = Inr [] \<and>
   dotCase ucd_russian (JString privet_space_mir) = Inr []"
  using camel_dot_ascii_only [of privet_space_mir ucd_russian]
  by (simp add: privet_space_mir_def js_space_def space_def)

text \<open>
  C10. \<open>toKebabCase\<close> deletes a dot without putting a boundary: two words of small ASCII
  letters with a dot between them come out as one word. \<open>camelCase\<close> and \<open>dotCase\<close> take the
  dot for a separator: they return the two words, the second one capitalised, or the two
  words with the dot between them.
\<close>

theorem dot_not_kebab_separator:
  assumes w1: "\<forall>c\<in>set w1. lower c" and w2: "\<forall>c\<in>set w2. lower c"
  shows "\<not> kebab_sep dot \<and> camel_sep dot \<and>
         toKebabCase u (JString (w1 @ dot # w2)) = Inr (w1 @ w2) \<and>
         (w1 \<noteq> [] \<and> w2 \<noteq> [] \<longrightarrow>
            camelCase u (JString (w1 @ dot # w2)) = Inr (w1 @ ascii_upper (hd w2) # tl w2) \<and>
            dotCase u (JString (w1 @ dot # w2)) = Inr (w1 @ dot # w2))"
proof (intro conjI impI)
  show "\<not> kebab_sep dot" "camel_sep dot"
    using dot_facts by simp_all
next
  let ?s = "w1 @ dot # w2"
  have not_blank: "trim ?s \<noteq> []"
    using dot_facts by (auto simp: trim_Nil_iff)
  have chars: "\<forall>c\<in>set ?s. \<not> kebab_sep c" "\<forall>c\<in>set ?s. \<not> upper c" "\<forall>c\<in>set ?s. \<not> digit c"
    using w1 w2 dot_facts by (auto simp: lower_facts)
  have kept: "filter (\<lambda>c. is_L u c \<or> is_N u c \<or> js_space c) w = w" if "\<forall>c\<in>set w. lower c" for w
    using that by (intro filter_True) (auto simp: is_L_def lower_facts)
  have "\<not> (is_L u dot \<or> is_N u dot \<or> js_space dot)"
    using dot_facts by (simp add: is_L_def is_N_def)
  then have stripped: "filter (\<lambda>c. is_L u c \<or> is_N u c \<or> js_space c) ?s = w1 @ w2"
    using kept [OF w1] kept [OF w2] by simp
  have one: "split_runs js_space (w1 @ w2) = [w1 @ w2]"
    using w1 w2 by (intro split_runs_none) (auto simp: lower_facts)
  have low: "toLowerCase u (w1 @ w2) = w1 @ w2"
    using w1 w2 by (intro toLowerCase_lower) auto
  have "toLowerCase u (join [hyphen] (filter (\<lambda>w. w \<noteq> []) (split_runs js_space (w1 @ w2)))) = w1 @ w2"
    using low by (cases "w1 @ w2 = []") (simp_all add: one toLowerCase_def del: append_is_Nil_conv)
  then show "toKebabCase u (JString ?s) = Inr (w1 @ w2)"
    by (simp only: toKebabCase_nonblank [OF not_blank] replace_runs_none [OF chars(1)]
        split_pairs_none_snd [OF chars(2)] split_acronym_none [OF chars(2)]
        split_pairs_none_snd [OF chars(3)] split_pairs_none_fst [OF chars(3)] stripped)
next
  assume ne: "w1 \<noteq> [] \<and> w2 \<noteq> []"
  let ?s = "w1 @ dot # w2"
  let ?c = "w1 @ space # w2"
  have not_blank: "trim ?s \<noteq> []"
    using dot_facts by (auto simp: trim_Nil_iff)
  have nosep: "\<forall>c\<in>set w1. \<not> camel_sep c" "\<forall>c\<in>set w2. \<not> camel_sep c"
    using w1 w2 by (auto simp: lower_facts)
  have "dropWhile camel_sep w2 = w2"
    using ne nosep by (simp add: dropWhile_hd)
  then have seps: "replace_runs camel_sep [space] ?s = ?c"
    using nosep dot_facts by (simp add: replace_runs_append_left replace_runs_none)
  have all: "\<forall>c\<in>set ?c. alnum_space c"
    using w1 w2 by (auto simp: lower_facts alnum_space_def)
  have "\<not> js_space (hd ?c)" "\<not> js_space (last ?c)"
    using ne w1 w2 by (auto simp: lower_facts)
  then have "trim ?c = ?c"
    by (intro trim_id) simp_all
  then have cleaned: "cleaned_of ?s = ?c"
    using all by (simp add: cleaned_of_def seps replace_runs_delete)
  have nospace: "\<forall>c\<in>set w1. c \<noteq> space" "\<forall>c\<in>set w2. c \<noteq> space"
    using w1 w2 by (auto simp: lower_facts)
  then have words: "split_char space ?c = [w1, w2]"
    by (simp add: split_char_append split_char_none)
  have up: "toUpperCase u (charAt0 w2) = [ascii_upper (hd w2)]"
    using ne w2 by (cases w2) (simp_all add: charAt0_def toUpperCase_def lower_facts)
  have rest: "toLowerCase u (slice1 w2) = tl w2"
    using ne w2 by (cases w2) (simp_all add: slice1_def toLowerCase_lower)
  show "camelCase u (JString ?s) = Inr (w1 @ ascii_upper (hd w2) # tl w2)"
    using not_blank by (simp add: cleaned words toLowerCase_lower w1 up rest)
  show "dotCase u (JString ?s) = Inr (w1 @ dot # w2)"
    using not_blank by (simp add: cleaned words toLowerCase_lower w1 w2)
qed

theorem dot_not_kebab_separator_witness:
  "\<not> kebab_sep dot \<and> camel_sep dot \<and>
   toKebabCase ucd_russian (JString (js ''hello.world'')) = Inr (js ''helloworld'') \<and>
   camelCase ucd_russian (JString (js ''hello.world'')) = Inr (js ''helloWorld'') \<and>
   dotCase ucd_russian (JString (js ''hello.world'')) = Inr (js ''hello.world'')"
proof -
  have words: "\<forall>c\<in>set (js ''hello''). lower c" "\<forall>c\<in>set (js ''world''). lower c"
    by (simp_all add: js_def lower_def)
  have texts: "js ''hello'' @ dot # js ''world'' = js ''hello.world''"
    "js ''hello'' @ js ''world'' = js ''helloworld''"
    "js ''hello'' @ ascii_upper (hd (js ''world'')) # tl (js ''world'') = js ''helloWorld''"
    by (simp_all add: js_def dot_def ascii_upper_def lower_def)
  have ne: "js ''hello'' \<noteq> [] \<and> js ''world'' \<noteq> []"
    by (simp add: js_def)
  note result = dot_not_kebab_separator [OF words, of ucd_russian, unfolded texts]
  from result have separators: "\<not> kebab_sep dot" "camel_sep dot"
    by (rule conjunct1, rule conjunct2 [THEN conjunct1])
  from result have kebab:
    "toKebabCase ucd_russian (JString (js ''hello.world'')) = Inr (js ''helloworld'')"
    by (rule conjunct2 [THEN conjunct2, THEN conjunct1])
  from result have "js ''hello'' \<noteq> [] \<and> js ''world'' \<noteq> [] \<longrightarrow>
      camelCase ucd_russian (JString (js ''hello.world'')) = Inr (js ''helloWorld'') \<and>
      dotCase ucd_russian (JString (js ''hello.world'')) = Inr (js ''hello.world'')"
    by (rule conjunct2 [THEN conjunct2, THEN conjunct2])
  from this [rule_format, OF ne] separators kebab show ?thesis
    by (intro conjI) (erule conjunct1 conjunct2 | assumption)+
qed

section \<open>Converting twice\<close>

text \<open>
  C3. \<open>camelCase(camelCase(s))\<close> is \<open>camelCase(s)\<close> in lower case, for every string \<open>s\<close>: the
  first result is one word of ASCII letters and digits, which the second call lower-cases as a
  whole. So \<open>camelCase(camelCase(s))\<close> is \<open>camelCase(s)\<close> exactly when \<open>camelCase(s)\<close> has no
  capital letter.
\<close>

theorem camelCase_twice:
  "\<exists>t. camelCase u (JString s) = Inr t \<and>
        camelCase u (JString t) = Inr (map ascii_lower t) \<and>
        (camelCase u (JString t) = Inr t \<longleftrightarrow> (\<forall>c\<in>set t. \<not> upper c))"
proof -
  obtain t where t: "camelCase u (JString s) = Inr t" "\<forall>c\<in>set t. alnum c"
    using camelCase_alnum [of u s] by (auto simp: list_all_iff)
  have twice: "camelCase u (JString t) = Inr (map ascii_lower t)"
    using t(2) by (rule camelCase_alnum_word)
  have "map ascii_lower t = t \<longleftrightarrow> (\<forall>c\<in>set t. \<not> upper c)"
    by (auto simp: map_eq_conv [of ascii_lower t id, simplified] ascii_lower_def)
  with t(1) twice show ?thesis
    by simp
qed

theorem camelCase_twice_witness:
  "camelCase ucd_russian (JString (js ''foo'')) = Inr (js ''foo'') \<and>
   camelCase ucd_russian (JString (js ''foo bar'')) = Inr (js ''fooBar'') \<and>
   camelCase ucd_russian (JString (js ''fooBar'')) = Inr (map ascii_lower (js ''fooBar''))"
  using camelCase_twice [of ucd_russian "js ''foo''"] camelCase_twice [of ucd_russian "js ''foo bar''"]
  by (simp add: class_defs eval_defs)

text \<open>
  \<open>camelCase\<close> is not idempotent on every string: \<open>"foo bar"\<close> gives \<open>"fooBar"\<close>, and
  \<open>"fooBar"\<close> gives \<open>"foobar"\<close>.
\<close>

theorem camelCase_not_idempotent:
  "camelCase ucd_russian (JString (js ''foo bar'')) = Inr (js ''fooBar'') \<and>
   camelCase ucd_russian (JString (js ''fooBar'')) = Inr (js ''foobar'') \<and>
   js ''foobar'' \<noteq> js ''fooBar''"
  by (simp add: class_defs eval_defs)

text \<open>
  C8. \<open>toKebabCase(toKebabCase(s))\<close> is to be \<open>toKebabCase(s)\<close> for every string \<open>s\<close>. The code
  deletes the special characters only after it has put the boundaries, so a deleted character
  leaves its neighbours in one word: \<open>"a@1"\<close> gives \<open>"a1"\<close>, with the letter right in front
  of the digit, and \<open>"a1"\<close> gives \<open>"a-1"\<close>. The same order makes the test on line 52 of
  \<open>src/chain_prompt.js\<close> fail, which expects \<open>"special-chars"\<close> for \<open>"special@#Chars!"\<close>: the code
  returns \<open>"specialchars"\<close>.
\<close>

theorem toKebabCase_not_idempotent:
  "toKebabCase u (JString (js ''a@1'')) = Inr (js ''a1'') \<and>
   toKebabCase u (JString (js ''a1'')) = Inr (js ''a-1'') \<and>
   js ''a-1'' \<noteq> js ''a1'' \<and>
   toKebabCase u (JString (js ''special@#Chars!'')) = Inr (js ''specialchars'') \<and>
   js ''specialchars'' \<noteq> js ''special-chars''"
  by (simp add: class_defs eval_defs)

text \<open>
  Where no character is deleted, the second call changes nothing: on a string of ASCII
  letters, ASCII digits, underscores, hyphens and white space the result is a sequence of kebab
  words joined by single hyphens, and every such sequence is a fixed point.
\<close>

lemma toKebabCase_idempotent_on_words:
  assumes "\<forall>c\<in>set s. alnum c \<or> kebab_sep c"
  shows "\<exists>ws. (\<forall>w\<in>set ws. kebab_word w) \<and>
          toKebabCase u (JString s) = Inr (join [hyphen] ws) \<and>
          toKebabCase u (JString (join [hyphen] ws)) = Inr (join [hyphen] ws)"
proof -
  from kebab_normal_form [OF assms] obtain ws where
    ws: "\<forall>w\<in>set ws. kebab_word w" "toKebabCase u (JString s) = Inr (join [hyphen] ws)"
    by blast
  from kebab_fixed_point [OF ws(1)] ws show ?thesis
    by blast
qed

lemma toKebabCase_idempotent_example:
  "toKebabCase u (JString (js ''XMLHttp_request-v2 beta'')) = Inr (js ''xml-http-request-v-2-beta'') \<and>
   toKebabCase u (JString (js ''xml-http-request-v-2-beta'')) = Inr (js ''xml-http-request-v-2-beta'')"
  by (simp add: class_defs eval_defs)

text \<open>
  Letters outside ASCII can make the second call split as well. In the Unicode character
  database the Kelvin sign U+212A is a letter whose small letter is the ASCII \<open>k\<close>; with these
  two rows a digit and the Kelvin sign stay one word in the first call, and the second call
  splits the digit from the \<open>k\<close>.
\<close>

lemma toKebabCase_kelvin_sign:
  assumes "uc_letter u 0x212A" "\<forall>seen rest. uc_lower u seen 0x212A rest = [107]"
  shows "toKebabCase u (JString [49, 0x212A]) = Inr [49, 107] \<and>
         toKebabCase u (JString [49, 107]) = Inr [49, 45, 107]"
  using assms by (simp add: class_defs eval_defs)

end
